theory Spec2Isabelle
  imports Main
begin

section \<open>The per-key rate limiter of rate-limiter.go\<close>

text \<open>
  The limiter keeps one entry per key: a fixed-window counter that is reset lazily, by
  the first operation that finds the window over. The Go code reads the wall clock with
  \<^verbatim>\<open>time.Now()\<close> and blocks with \<^verbatim>\<open>time.Sleep\<close>; the model makes the clock a
  component of the state, so that every operation is a function of the state.

  Instants and durations are integers (nanoseconds). Go's \<^verbatim>\<open>int\<close> fields \<open>uses\<close> and
  \<open>maxUses\<close> are modelled as \<open>int\<close>: the only arithmetic on them is \<^verbatim>\<open>e.uses++\<close> under the
  guard \<^verbatim>\<open>e.uses < e.maxUses\<close>, which cannot leave the range of a machine integer
  (lemmas \<open>Allow_no_overflow\<close> and \<open>Wait_no_overflow\<close> below). The two mutexes serialise the callers;
  the model is the sequential behaviour of one caller at a time.
\<close>

subsection \<open>Data\<close>

record rateLimiterEntry =
  uses :: int
  maxUses :: int
  recovery :: int
  expiresAt :: int

text \<open>The table \<^verbatim>\<open>entries map[string]*rateLimiterEntry\<close>, and the clock beside it.\<close>

record RateLimiter =
  entries :: "string \<rightharpoonup> rateLimiterEntry"
  clock :: int

definition NewRateLimiter :: "int \<Rightarrow> RateLimiter" where
  "NewRateLimiter t0 = \<lparr>entries = Map.empty, clock = t0\<rparr>"

text \<open>Time that passes between two operations; durations of waiting are never negative.\<close>

definition elapse :: "nat \<Rightarrow> RateLimiter \<Rightarrow> RateLimiter" where
  "elapse d rl = rl\<lparr>clock := clock rl + int d\<rparr>"

subsection \<open>Operations\<close>

text \<open>
  \<^verbatim>\<open>Set\<close>: a new entry gets the zero value for \<open>uses\<close> and the current instant for
  \<open>expiresAt\<close>; an entry that exists is updated through its pointer.
\<close>

definition Set :: "string \<Rightarrow> int \<Rightarrow> int \<Rightarrow> RateLimiter \<Rightarrow> RateLimiter" where
  "Set key max_uses recov rl =
     (case entries rl key of
        None \<Rightarrow>
          rl\<lparr>entries := (entries rl)(key \<mapsto>
               \<lparr>uses = 0, maxUses = max_uses, recovery = recov, expiresAt = clock rl\<rparr>)\<rparr>
      | Some e \<Rightarrow>
          rl\<lparr>entries := (entries rl)(key \<mapsto> e\<lparr>maxUses := max_uses, recovery := recov\<rparr>)\<rparr>)"

text \<open>
  \<^verbatim>\<open>Allow\<close>: \<^verbatim>\<open>now.After(e.expiresAt)\<close> is the strict comparison \<open>expiresAt e < now\<close>.
  The result is the returned boolean and the state left behind.
\<close>

definition Allow :: "string \<Rightarrow> RateLimiter \<Rightarrow> bool \<times> RateLimiter" where
  "Allow key rl =
     (case entries rl key of
        None \<Rightarrow> (True, rl)
      | Some e \<Rightarrow>
          (let now = clock rl in
           if expiresAt e < now then
             (True, rl\<lparr>entries := (entries rl)(key \<mapsto>
                      e\<lparr>uses := 1, expiresAt := now + recovery e\<rparr>)\<rparr>)
           else if uses e < maxUses e then
             (True, rl\<lparr>entries := (entries rl)(key \<mapsto> e\<lparr>uses := uses e + 1\<rparr>)\<rparr>)
           else (False, rl)))"

text \<open>
  \<^verbatim>\<open>time.Sleep(d)\<close> pauses for at least \<open>d\<close> and returns at once when \<open>d \<le> 0\<close>. The
  time by which the caller wakes up late is \<open>late\<close>, a natural number, so the clock
  never runs backwards.
\<close>

definition Sleep :: "int \<Rightarrow> nat \<Rightarrow> int \<Rightarrow> int" where
  "Sleep d late now = now + max d 0 + int late"

text \<open>
  The \<^verbatim>\<open>for\<close> loop of \<^verbatim>\<open>Wait\<close>, on the entry the pointer \<open>e\<close> refers to and the
  clock. The loop has no bound in the source, so it is a partial function: \<open>None\<close> is a
  loop that never returns. \<open>lag i\<close> is the lateness of the \<open>i\<close>-th sleep; the loop
  returns the entry as it leaves it and the instant at which it returns.
  \<^verbatim>\<open>time.Until(e.expiresAt)\<close> is \<open>expiresAt e - now\<close>.
\<close>

partial_function (option) Wait_loop ::
  "(nat \<Rightarrow> nat) \<Rightarrow> nat \<Rightarrow> rateLimiterEntry \<Rightarrow> int \<Rightarrow> (rateLimiterEntry \<times> int) option" where
  "Wait_loop lag i e now =
     (if expiresAt e < now then
        Some (e\<lparr>uses := 1, expiresAt := now + recovery e\<rparr>, now)
      else if uses e < maxUses e then
        Some (e\<lparr>uses := uses e + 1\<rparr>, now)
      else Wait_loop lag (Suc i) e (Sleep (expiresAt e - now) (lag i) now))"

definition Wait :: "(nat \<Rightarrow> nat) \<Rightarrow> string \<Rightarrow> RateLimiter \<Rightarrow> RateLimiter option" where
  "Wait lag key rl =
     (case entries rl key of
        None \<Rightarrow> Some rl
      | Some e \<Rightarrow>
          (case Wait_loop lag 0 e (clock rl) of
             None \<Rightarrow> None
           | Some (e', now') \<Rightarrow> Some (rl\<lparr>entries := (entries rl)(key \<mapsto> e'), clock := now'\<rparr>)))"

definition WaitOrSet ::
  "(nat \<Rightarrow> nat) \<Rightarrow> string \<Rightarrow> int \<Rightarrow> int \<Rightarrow> RateLimiter \<Rightarrow> RateLimiter option" where
  "WaitOrSet lag key max_uses recov rl =
     (case entries rl key of
        None \<Rightarrow>
          Some (rl\<lparr>entries := (entries rl)(key \<mapsto>
                  \<lparr>uses = 1, maxUses = max_uses, recovery = recov,
                   expiresAt = clock rl + recov\<rparr>)\<rparr>)
      | Some _ \<Rightarrow> Wait lag key rl)"

text \<open>A scheduler that wakes every sleeper \<open>d\<close> nanoseconds late.\<close>

definition steady :: "nat \<Rightarrow> nat \<Rightarrow> nat" where
  "steady d i = d"

subsection \<open>Sequences of operations\<close>

datatype op =
    OpSet string int int
  | OpAllow string
  | OpWait string
  | OpWaitOrSet string int int
  | OpElapse nat

fun step :: "(nat \<Rightarrow> nat) \<Rightarrow> op \<Rightarrow> RateLimiter \<Rightarrow> RateLimiter option" where
  "step lag (OpSet key max_uses recov) rl = Some (Set key max_uses recov rl)"
| "step lag (OpAllow key) rl = Some (snd (Allow key rl))"
| "step lag (OpWait key) rl = Wait lag key rl"
| "step lag (OpWaitOrSet key max_uses recov) rl = WaitOrSet lag key max_uses recov rl"
| "step lag (OpElapse d) rl = Some (elapse d rl)"

fun run :: "(nat \<Rightarrow> nat) \<Rightarrow> op list \<Rightarrow> RateLimiter \<Rightarrow> RateLimiter option" where
  "run lag [] rl = Some rl"
| "run lag (x # xs) rl =
     (case step lag x rl of None \<Rightarrow> None | Some rl' \<Rightarrow> run lag xs rl')"

text \<open>
  Calls of \<^verbatim>\<open>Allow\<close> on one key, the \<open>n\<close>-th call after \<open>ds ! n\<close> more nanoseconds:
  the booleans returned, in order, and the final state.
\<close>

fun Allow_calls :: "nat list \<Rightarrow> string \<Rightarrow> RateLimiter \<Rightarrow> bool list \<times> RateLimiter" where
  "Allow_calls [] key rl = ([], rl)"
| "Allow_calls (d # ds) key rl =
     (let (b, rl') = Allow key (elapse d rl);
          (bs, rl'') = Allow_calls ds key rl'
      in (b # bs, rl''))"

subsection \<open>Predicates used by the statements\<close>

text \<open>
  What a loop that has returned leaves behind: the entry \<open>fst r\<close> and the instant
  \<open>snd r\<close> of the return, for a loop started on \<open>e\<close> at \<open>now\<close>. Either the window
  was over at \<open>snd r\<close> and a new one was opened there, or there was room at \<open>now\<close>.
\<close>

definition granted :: "rateLimiterEntry \<Rightarrow> int \<Rightarrow> rateLimiterEntry \<times> int \<Rightarrow> bool" where
  "granted e now r =
     (now \<le> snd r \<and>
      (fst r = e\<lparr>uses := 1, expiresAt := snd r + recovery e\<rparr> \<and> expiresAt e < snd r
       \<or> fst r = e\<lparr>uses := uses e + 1\<rparr> \<and> uses e < maxUses e \<and> snd r = now))"

text \<open>
  Arguments under which the counter stays within the quota: every \<^verbatim>\<open>Set\<close> passes a
  \<open>maxUses\<close> of at least one and not below the uses already counted, and a
  \<^verbatim>\<open>WaitOrSet\<close> that creates its entry passes a \<open>maxUses\<close> of at least one.
  \<open>sane_ops\<close> checks each operation in the state in which it runs.
\<close>

fun sane_op :: "RateLimiter \<Rightarrow> op \<Rightarrow> bool" where
  "sane_op rl (OpSet key max_uses recov) =
     (1 \<le> max_uses \<and> (case entries rl key of None \<Rightarrow> True | Some e \<Rightarrow> uses e \<le> max_uses))"
| "sane_op rl (OpWaitOrSet key max_uses recov) =
     (case entries rl key of None \<Rightarrow> 1 \<le> max_uses | Some e \<Rightarrow> True)"
| "sane_op rl x = True"

fun sane_ops :: "(nat \<Rightarrow> nat) \<Rightarrow> RateLimiter \<Rightarrow> op list \<Rightarrow> bool" where
  "sane_ops lag rl [] = True"
| "sane_ops lag rl (x # xs) =
     (sane_op rl x \<and> (case step lag x rl of None \<Rightarrow> True | Some rl' \<Rightarrow> sane_ops lag rl' xs))"

section \<open>Properties\<close>

subsection \<open>One trip through the loop\<close>

lemma Wait_loop_expired:
  "expiresAt e < now \<Longrightarrow>
   Wait_loop lag i e now = Some (e\<lparr>uses := 1, expiresAt := now + recovery e\<rparr>, now)"
  by (subst Wait_loop.simps) simp

lemma Wait_loop_room:
  "\<not> expiresAt e < now \<Longrightarrow> uses e < maxUses e \<Longrightarrow>
   Wait_loop lag i e now = Some (e\<lparr>uses := uses e + 1\<rparr>, now)"
  by (subst Wait_loop.simps) simp

lemma Wait_loop_blocked:
  "\<not> expiresAt e < now \<Longrightarrow> \<not> uses e < maxUses e \<Longrightarrow>
   Wait_loop lag i e now = Wait_loop lag (Suc i) e (Sleep (expiresAt e - now) (lag i) now)"
  by (subst Wait_loop.simps) simp

lemma Sleep_mono: "now \<le> Sleep d late now"
  by (simp add: Sleep_def)

text \<open>
  The loop is a partial function, so a fact about its result is proved by the
  induction rule of its fixed point, one unfolding of the body at a time.
\<close>

lemma Wait_loop_result:
  assumes "Wait_loop lag i e now = Some r"
  shows "granted e now r"
proof (rule Wait_loop.raw_induct[where P = "\<lambda>lag i e now r. granted e now r", OF _ assms])
  fix loop :: "(nat \<Rightarrow> nat) \<Rightarrow> nat \<Rightarrow> rateLimiterEntry \<Rightarrow> int \<Rightarrow> (rateLimiterEntry \<times> int) option"
  fix lag i e now r
  assume IH: "\<And>lag i e now r. loop lag i e now = Some r \<Longrightarrow> granted e now r"
  assume eq: "(if expiresAt e < now then
        Some (e\<lparr>uses := 1, expiresAt := now + recovery e\<rparr>, now)
      else if uses e < maxUses e then
        Some (e\<lparr>uses := uses e + 1\<rparr>, now)
      else loop lag (Suc i) e (Sleep (expiresAt e - now) (lag i) now)) = Some r"
  show "granted e now r"
  proof (cases "expiresAt e < now")
    case True
    with eq show ?thesis by (auto simp: granted_def)
  next
    case False
    show ?thesis
    proof (cases "uses e < maxUses e")
      case True
      with False eq show ?thesis by (auto simp: granted_def)
    next
      case room: False
      with False eq
      have "loop lag (Suc i) e (Sleep (expiresAt e - now) (lag i) now) = Some r" by simp
      from IH[OF this] Sleep_mono[of now "expiresAt e - now" "lag i"]
      show ?thesis using room by (auto simp: granted_def)
    qed
  qed
qed

lemma Wait_result:
  assumes "entries rl key = Some e" and "Wait lag key rl = Some rl'"
  shows "\<exists>r. granted e (clock rl) r \<and>
             rl' = rl\<lparr>entries := (entries rl)(key \<mapsto> fst r), clock := snd r\<rparr>"
proof -
  from assms obtain r where r: "Wait_loop lag 0 e (clock rl) = Some r"
    and rl': "rl' = rl\<lparr>entries := (entries rl)(key \<mapsto> fst r), clock := snd r\<rparr>"
    by (auto simp: Wait_def split: option.splits)
  from Wait_loop_result[OF r] rl' show ?thesis by blast
qed

subsection \<open>What an operation can do to an entry\<close>

lemma Allow_entry:
  assumes "entries (snd (Allow key rl)) k = Some e'"
  shows "\<exists>e. entries rl k = Some e \<and>
           (e' = e \<or> (\<exists>t. e' = e\<lparr>uses := 1, expiresAt := t\<rparr>) \<or>
            e' = e\<lparr>uses := uses e + 1\<rparr> \<and> uses e < maxUses e)"
proof (cases "entries rl key")
  case None
  with assms show ?thesis by (simp add: Allow_def)
next
  case (Some e0)
  with assms show ?thesis
    by (cases "k = key") (auto simp: Allow_def Let_def split: if_splits)
qed

lemma Wait_entry:
  assumes "Wait lag key rl = Some rl'" and "entries rl' k = Some e'"
  shows "\<exists>e. entries rl k = Some e \<and>
           (e' = e \<or> (\<exists>t. e' = e\<lparr>uses := 1, expiresAt := t\<rparr>) \<or>
            e' = e\<lparr>uses := uses e + 1\<rparr> \<and> uses e < maxUses e)"
proof (cases "entries rl key")
  case None
  with assms show ?thesis by (simp add: Wait_def)
next
  case (Some e0)
  from Wait_result[OF Some assms(1)] obtain r where
    g: "granted e0 (clock rl) r" and
    rl': "rl' = rl\<lparr>entries := (entries rl)(key \<mapsto> fst r), clock := snd r\<rparr>" by blast
  show ?thesis
  proof (cases "k = key")
    case True
    with assms(2) rl' have "e' = fst r" by simp
    with g Some True show ?thesis by (auto simp: granted_def)
  next
    case False
    with assms(2) rl' show ?thesis by simp
  qed
qed

lemma step_entry:
  assumes "step lag x rl = Some rl'" and "entries rl' k = Some e'"
  shows "(entries rl k = None \<and>
           (\<exists>m r. x = OpSet k m r \<and>
                   e' = \<lparr>uses = 0, maxUses = m, recovery = r, expiresAt = clock rl\<rparr> \<or>
                   x = OpWaitOrSet k m r \<and>
                   e' = \<lparr>uses = 1, maxUses = m, recovery = r, expiresAt = clock rl + r\<rparr>)) \<or>
         (\<exists>e. entries rl k = Some e \<and>
           (e' = e \<or> (\<exists>t. e' = e\<lparr>uses := 1, expiresAt := t\<rparr>) \<or>
            e' = e\<lparr>uses := uses e + 1\<rparr> \<and> uses e < maxUses e \<or>
            (\<exists>m r. x = OpSet k m r \<and> e' = e\<lparr>maxUses := m, recovery := r\<rparr>)))"
proof (cases x)
  case (OpSet key m r)
  with assms show ?thesis
    by (cases "entries rl key"; cases "k = key") (auto simp: Set_def)
next
  case (OpAllow key)
  with assms Allow_entry[of key rl k e'] show ?thesis by auto
next
  case (OpWait key)
  with assms Wait_entry[of lag key rl rl' k e'] show ?thesis by auto
next
  case (OpWaitOrSet key m r)
  show ?thesis
  proof (cases "entries rl key")
    case None
    with assms OpWaitOrSet show ?thesis
      by (cases "k = key") (auto simp: WaitOrSet_def)
  next
    case (Some e0)
    with assms OpWaitOrSet have "Wait lag key rl = Some rl'" by (simp add: WaitOrSet_def)
    from Wait_entry[OF this assms(2)] show ?thesis by auto
  qed
next
  case (OpElapse d)
  with assms show ?thesis by (auto simp: elapse_def)
qed

text \<open>
  The counter is only ever incremented below \<open>maxUses\<close> or set to one: within the range
  of a 64-bit integer it stays there, and \<^verbatim>\<open>e.uses++\<close> never wraps.
\<close>

lemma Allow_no_overflow:
  assumes "entries rl key = Some e"
    and "- (2 ^ 63) \<le> uses e" and "uses e < 2 ^ 63" and "maxUses e < 2 ^ 63"
    and "entries (snd (Allow key rl)) key = Some e'"
  shows "- (2 ^ 63) \<le> uses e' \<and> uses e' < 2 ^ 63"
  using Allow_entry[OF assms(5)] assms(1-4) by auto

lemma Wait_no_overflow:
  assumes "entries rl key = Some e"
    and "- (2 ^ 63) \<le> uses e" and "uses e < 2 ^ 63" and "maxUses e < 2 ^ 63"
    and "Wait lag key rl = Some rl'" and "entries rl' key = Some e'"
  shows "- (2 ^ 63) \<le> uses e' \<and> uses e' < 2 ^ 63"
  using Wait_entry[OF assms(5,6)] assms(1-4) by auto

subsection \<open>Invariants of a run\<close>

lemma run_uses_nonneg:
  assumes "run lag ops rl = Some rl'"
    and "\<And>k e. entries rl k = Some e \<Longrightarrow> 0 \<le> uses e"
    and "entries rl' k = Some e'"
  shows "0 \<le> uses e'"
  using assms
proof (induction ops arbitrary: rl)
  case Nil
  then show ?case by simp
next
  case (Cons x xs)
  from Cons.prems(1) obtain rl1 where s: "step lag x rl = Some rl1"
    and r: "run lag xs rl1 = Some rl'" by (auto split: option.splits)
  have "0 \<le> uses e1" if "entries rl1 j = Some e1" for j e1
    using step_entry[OF s that] Cons.prems(2) by fastforce
  from Cons.IH[OF r this Cons.prems(3)] show ?case by simp
qed

lemma sane_ops_take: "sane_ops lag rl ops \<Longrightarrow> sane_ops lag rl (take n ops)"
proof (induction ops arbitrary: rl n)
  case Nil
  then show ?case by simp
next
  case (Cons x xs)
  then show ?case by (cases n) (auto split: option.splits)
qed

lemma run_uses_le_max:
  assumes "run lag ops rl = Some rl'"
    and "sane_ops lag rl ops"
    and "\<And>k e. entries rl k = Some e \<Longrightarrow> uses e \<le> maxUses e \<and> 1 \<le> maxUses e"
    and "entries rl' k = Some e'"
  shows "uses e' \<le> maxUses e' \<and> 1 \<le> maxUses e'"
  using assms
proof (induction ops arbitrary: rl)
  case Nil
  then show ?case by simp
next
  case (Cons x xs)
  from Cons.prems(1) obtain rl1 where s: "step lag x rl = Some rl1"
    and r: "run lag xs rl1 = Some rl'" by (auto split: option.splits)
  from Cons.prems(2) s have ok: "sane_op rl x" and oks: "sane_ops lag rl1 xs" by auto
  have "uses e1 \<le> maxUses e1 \<and> 1 \<le> maxUses e1" if "entries rl1 j = Some e1" for j e1
    using step_entry[OF s that] Cons.prems(3) ok by fastforce
  from Cons.IH[OF r oks this Cons.prems(4)] show ?case by simp
qed

text \<open>Unfolding the operations on a concrete state.\<close>

lemmas rl_eval = NewRateLimiter_def Set_def elapse_def Allow_def Wait_def WaitOrSet_def
  Wait_loop_expired Wait_loop_room Let_def

subsection \<open>Opening a new window\<close>

text \<open>
  Claim C1, as the code has it. \<^verbatim>\<open>Allow\<close> opens a new window exactly when it observes
  an instant strictly after \<open>expiresAt\<close>: the entry's \<open>expiresAt\<close> becomes
  \<open>now + recovery\<close> then, and is kept otherwise. With the quota exhausted
  (\<open>uses = maxUses\<close>), a call strictly after \<open>expiresAt\<close> returns true and resets the
  entry (\<open>uses = 1\<close>, \<open>expiresAt = now + recovery\<close>); a call at an instant up to and
  including \<open>expiresAt\<close> returns false and changes nothing.
\<close>

theorem window_opens_strictly_after:
  assumes "entries rl key = Some e"
  shows "(\<exists>e'. entries (snd (Allow key rl)) key = Some e' \<and>
            expiresAt e' =
              (if expiresAt e < clock rl then clock rl + recovery e else expiresAt e)) \<and>
         (uses e = maxUses e \<longrightarrow>
            Allow key rl =
              (if expiresAt e < clock rl
               then (True, rl\<lparr>entries := (entries rl)(key \<mapsto>
                             e\<lparr>uses := 1, expiresAt := clock rl + recovery e\<rparr>)\<rparr>)
               else (False, rl)))"
  using assms by (simp add: Allow_def)

theorem window_opens_strictly_after_witness:
  "entries (elapse 101 (snd (Allow ''k'' (elapse 1 (Set ''k'' 1 100 (NewRateLimiter 0)))))) ''k'' =
     Some \<lparr>uses = 1, maxUses = 1, recovery = 100, expiresAt = 101\<rparr> \<and>
   Allow ''k'' (elapse 101 (snd (Allow ''k'' (elapse 1 (Set ''k'' 1 100 (NewRateLimiter 0)))))) =
     (True, \<lparr>entries = [''k'' \<mapsto> \<lparr>uses = 1, maxUses = 1, recovery = 100, expiresAt = 202\<rparr>],
             clock = 102\<rparr>)"
proof -
  have h: "elapse 101 (snd (Allow ''k'' (elapse 1 (Set ''k'' 1 100 (NewRateLimiter 0))))) =
     \<lparr>entries = [''k'' \<mapsto> \<lparr>uses = 1, maxUses = 1, recovery = 100, expiresAt = 101\<rparr>],
      clock = 102\<rparr>"
    by (simp add: NewRateLimiter_def Set_def elapse_def Allow_def)
  from window_opens_strictly_after[of
    "elapse 101 (snd (Allow ''k'' (elapse 1 (Set ''k'' 1 100 (NewRateLimiter 0)))))" "''k''"
    "\<lparr>uses = 1, maxUses = 1, recovery = 100, expiresAt = 101\<rparr>"] h
  show ?thesis by simp
qed

text \<open>
  The claim's own wording takes the instant \<open>now = expiresAt\<close> for the start of a new
  window. Here the window ends at 101, the quota of one is used up, and the call at
  101 is refused.
\<close>

theorem window_at_expiry_counterexample:
  "entries (elapse 100 (snd (Allow ''k'' (elapse 1 (Set ''k'' 1 100 (NewRateLimiter 0)))))) ''k'' =
     Some \<lparr>uses = 1, maxUses = 1, recovery = 100, expiresAt = 101\<rparr> \<and>
   clock (elapse 100 (snd (Allow ''k'' (elapse 1 (Set ''k'' 1 100 (NewRateLimiter 0)))))) = 101 \<and>
   Allow ''k'' (elapse 100 (snd (Allow ''k'' (elapse 1 (Set ''k'' 1 100 (NewRateLimiter 0)))))) =
     (False, \<lparr>entries = [''k'' \<mapsto> \<lparr>uses = 1, maxUses = 1, recovery = 100, expiresAt = 101\<rparr>],
              clock = 101\<rparr>)"
  by (simp add: NewRateLimiter_def Set_def elapse_def Allow_def)

subsection \<open>A quota of zero or less\<close>

text \<open>
  Claim C2, as the code has it. In every state the limiter can reach, a key whose
  \<open>maxUses\<close> is zero or negative is refused by \<^verbatim>\<open>Allow\<close> exactly while the window
  lasts (\<open>now \<le> expiresAt\<close>); a call strictly after \<open>expiresAt\<close> is granted, since the
  reset comes before the comparison with the quota.
\<close>

theorem nonpositive_quota:
  assumes "run lag ops (NewRateLimiter t0) = Some rl"
    and "entries rl key = Some e" and "maxUses e \<le> 0"
  shows "fst (Allow key rl) = (expiresAt e < clock rl)"
proof -
  have "0 \<le> uses e"
    using run_uses_nonneg[OF assms(1) _ assms(2)] by (simp add: NewRateLimiter_def)
  with assms(2,3) show ?thesis by (simp add: Allow_def Let_def)
qed

theorem nonpositive_quota_witness:
  "run (steady 0) [OpSet ''k'' 0 100, OpElapse 1] (NewRateLimiter 0) =
     Some \<lparr>entries = [''k'' \<mapsto> \<lparr>uses = 0, maxUses = 0, recovery = 100, expiresAt = 0\<rparr>],
           clock = 1\<rparr> \<and>
   fst (Allow ''k''
     \<lparr>entries = [''k'' \<mapsto> \<lparr>uses = 0, maxUses = 0, recovery = 100, expiresAt = 0\<rparr>],
      clock = 1\<rparr>) \<and>
   run (steady 0) [OpSet ''k'' 0 100] (NewRateLimiter 0) =
     Some \<lparr>entries = [''k'' \<mapsto> \<lparr>uses = 0, maxUses = 0, recovery = 100, expiresAt = 0\<rparr>],
           clock = 0\<rparr> \<and>
   \<not> fst (Allow ''k''
     \<lparr>entries = [''k'' \<mapsto> \<lparr>uses = 0, maxUses = 0, recovery = 100, expiresAt = 0\<rparr>],
      clock = 0\<rparr>)"
proof -
  have r1: "run (steady 0) [OpSet ''k'' 0 100, OpElapse 1] (NewRateLimiter 0) =
     Some \<lparr>entries = [''k'' \<mapsto> \<lparr>uses = 0, maxUses = 0, recovery = 100, expiresAt = 0\<rparr>],
           clock = 1\<rparr>"
    by (simp add: rl_eval)
  have r0: "run (steady 0) [OpSet ''k'' 0 100] (NewRateLimiter 0) =
     Some \<lparr>entries = [''k'' \<mapsto> \<lparr>uses = 0, maxUses = 0, recovery = 100, expiresAt = 0\<rparr>],
           clock = 0\<rparr>"
    by (simp add: rl_eval)
  from nonpositive_quota[OF r1, of "''k''" "\<lparr>uses = 0, maxUses = 0, recovery = 100, expiresAt = 0\<rparr>"]
       nonpositive_quota[OF r0, of "''k''" "\<lparr>uses = 0, maxUses = 0, recovery = 100, expiresAt = 0\<rparr>"]
       r0 r1
  show ?thesis by simp
qed

text \<open>
  The claim's own wording has every call refused for ever. One nanosecond after
  \<^verbatim>\<open>Set\<close> with \<open>maxUses = 0\<close> the call is granted.
\<close>

theorem nonpositive_quota_counterexample:
  "entries (Set ''k'' 0 100 (NewRateLimiter 0)) ''k'' =
     Some \<lparr>uses = 0, maxUses = 0, recovery = 100, expiresAt = 0\<rparr> \<and>
   Allow ''k'' (elapse 1 (Set ''k'' 0 100 (NewRateLimiter 0))) =
     (True, \<lparr>entries = [''k'' \<mapsto> \<lparr>uses = 1, maxUses = 0, recovery = 100, expiresAt = 101\<rparr>],
             clock = 1\<rparr>)"
  by (simp add: rl_eval)

subsection \<open>Bounds on the counter\<close>

text \<open>
  Claim C3, as the code has it. After each operation of any sequence that starts from the
  empty limiter (each prefix \<open>take n ops\<close> that has returned), every entry has
  \<open>0 \<le> uses\<close>, whatever the arguments; and it has \<open>uses \<le> maxUses\<close> when the
  arguments are sane: each \<^verbatim>\<open>Set\<close> passes \<open>maxUses \<ge> 1\<close> and not less than the uses
  the entry has counted, and each \<^verbatim>\<open>WaitOrSet\<close> that creates an entry passes
  \<open>maxUses \<ge> 1\<close>.
\<close>

theorem uses_within_bounds:
  assumes "run lag (take n ops) (NewRateLimiter t0) = Some rl"
    and "entries rl key = Some e"
  shows "0 \<le> uses e \<and> (sane_ops lag (NewRateLimiter t0) ops \<longrightarrow> uses e \<le> maxUses e)"
proof -
  have a: "0 \<le> uses e"
    using run_uses_nonneg[OF assms(1) _ assms(2)] by (simp add: NewRateLimiter_def)
  have "uses e \<le> maxUses e" if "sane_ops lag (NewRateLimiter t0) ops"
    using run_uses_le_max[OF assms(1) sane_ops_take[OF that] _ assms(2)]
    by (simp add: NewRateLimiter_def)
  with a show ?thesis by simp
qed

theorem uses_within_bounds_witness:
  "run (steady 0) (take 5 [OpSet ''k'' 2 100, OpElapse 1, OpAllow ''k'', OpWait ''k'',
                           OpAllow ''k'', OpElapse 200]) (NewRateLimiter 0) =
     Some \<lparr>entries = [''k'' \<mapsto> \<lparr>uses = 2, maxUses = 2, recovery = 100, expiresAt = 101\<rparr>],
           clock = 1\<rparr> \<and>
   sane_ops (steady 0) (NewRateLimiter 0)
     [OpSet ''k'' 2 100, OpElapse 1, OpAllow ''k'', OpWait ''k'', OpAllow ''k'', OpElapse 200] \<and>
   (0::int) \<le> uses \<lparr>uses = 2, maxUses = 2, recovery = 100, expiresAt = 101\<rparr> \<and>
   uses \<lparr>uses = 2, maxUses = 2, recovery = 100, expiresAt = 101\<rparr>
     \<le> maxUses \<lparr>uses = 2, maxUses = 2, recovery = 100, expiresAt = 101\<rparr>"
proof -
  have r: "run (steady 0) (take 5 [OpSet ''k'' 2 100, OpElapse 1, OpAllow ''k'', OpWait ''k'',
                           OpAllow ''k'', OpElapse 200]) (NewRateLimiter 0) =
     Some \<lparr>entries = [''k'' \<mapsto> \<lparr>uses = 2, maxUses = 2, recovery = 100, expiresAt = 101\<rparr>],
           clock = 1\<rparr>"
    by (simp add: rl_eval)
  have s: "sane_ops (steady 0) (NewRateLimiter 0)
     [OpSet ''k'' 2 100, OpElapse 1, OpAllow ''k'', OpWait ''k'', OpAllow ''k'', OpElapse 200]"
    by (simp add: rl_eval)
  from uses_within_bounds[OF r, of "''k''" "\<lparr>uses = 2, maxUses = 2, recovery = 100, expiresAt = 101\<rparr>"]
       r s
  show ?thesis by simp
qed

text \<open>
  The claim's own wording allows any arguments. Lowering \<open>maxUses\<close> from two to one
  after two uses leaves \<open>uses = 2\<close> above \<open>maxUses = 1\<close>.
\<close>

theorem uses_above_quota_counterexample:
  "run (steady 0) [OpSet ''k'' 2 100, OpElapse 1, OpAllow ''k'', OpAllow ''k'', OpSet ''k'' 1 100]
       (NewRateLimiter 0) =
     Some \<lparr>entries = [''k'' \<mapsto> \<lparr>uses = 2, maxUses = 1, recovery = 100, expiresAt = 101\<rparr>],
           clock = 1\<rparr> \<and>
   \<not> uses \<lparr>uses = 2, maxUses = 1, recovery = 100, expiresAt = 101\<rparr>
       \<le> maxUses \<lparr>uses = 2, maxUses = 1, recovery = 100, expiresAt = 101\<rparr>"
  by (simp add: rl_eval)

subsection \<open>The quota of one window\<close>

lemma Allow_calls_window:
  assumes "entries rl key = Some e" and "uses e + int n = maxUses e"
    and "length ds = Suc n" and "clock rl + int (sum_list ds) \<le> expiresAt e"
  shows "fst (Allow_calls ds key rl) = replicate n True @ [False]"
  using assms
proof (induction n arbitrary: rl e ds)
  case 0
  then obtain d where ds: "ds = [d]" by (cases ds) auto
  with 0 show ?case by (simp add: Allow_def elapse_def Let_def)
next
  case (Suc n)
  then obtain d ds' where ds: "ds = d # ds'" and len: "length ds' = Suc n"
    by (cases ds) auto
  let ?rl1 = "elapse d rl"
  let ?e1 = "e\<lparr>uses := uses e + 1\<rparr>"
  let ?rl2 = "?rl1\<lparr>entries := (entries ?rl1)(key \<mapsto> ?e1)\<rparr>"
  from Suc.prems ds have ne: "\<not> expiresAt e < clock ?rl1" by (simp add: elapse_def)
  from Suc.prems have room: "uses e < maxUses e" by simp
  have a: "Allow key ?rl1 = (True, ?rl2)"
    using Suc.prems(1) ne room by (simp add: Allow_def Let_def elapse_def)
  have "fst (Allow_calls ds' key ?rl2) = replicate n True @ [False]"
  proof (rule Suc.IH[OF _ _ len])
    show "entries ?rl2 key = Some ?e1" by simp
    show "uses ?e1 + int n = maxUses ?e1" using Suc.prems(2) by simp
    show "clock ?rl2 + int (sum_list ds') \<le> expiresAt ?e1"
      using Suc.prems(4) ds by (simp add: elapse_def)
  qed
  with a ds show ?case by (simp add: split_beta)
qed

text \<open>
  Claim C4. For an entry with \<open>maxUses = N \<ge> 1\<close>, \<open>N + 1\<close> calls of \<^verbatim>\<open>Allow\<close>
  within one window return true \<open>N\<close> times and then false. The window is the one the
  first call opens (it observes an instant after \<open>expiresAt\<close>, and the other \<open>N\<close> calls
  come within \<open>recovery\<close> of it), or the one of an entry that has counted no use yet
  (all \<open>N + 1\<close> calls come up to \<open>expiresAt\<close>). The second hypothesis implies a
  \<open>recovery\<close> that is not negative.
\<close>

theorem quota_per_window:
  assumes "entries rl key = Some e" and "maxUses e = int N" and "1 \<le> N"
  shows "(length ds = N \<and> expiresAt e < clock rl + int d0 \<and>
            int (sum_list ds) \<le> recovery e \<longrightarrow>
          fst (Allow_calls (d0 # ds) key rl) = replicate N True @ [False]) \<and>
         (uses e = 0 \<and> length ds = Suc N \<and> clock rl + int (sum_list ds) \<le> expiresAt e \<longrightarrow>
          fst (Allow_calls ds key rl) = replicate N True @ [False])"
proof (intro conjI impI)
  assume h: "length ds = N \<and> expiresAt e < clock rl + int d0 \<and>
            int (sum_list ds) \<le> recovery e"
  let ?rl1 = "elapse d0 rl"
  let ?e1 = "e\<lparr>uses := 1, expiresAt := clock ?rl1 + recovery e\<rparr>"
  let ?rl2 = "?rl1\<lparr>entries := (entries ?rl1)(key \<mapsto> ?e1)\<rparr>"
  from assms(3) obtain n where N: "N = Suc n" by (cases N) auto
  have a: "Allow key ?rl1 = (True, ?rl2)"
    using assms(1) h by (simp add: Allow_def Let_def elapse_def)
  have "fst (Allow_calls ds key ?rl2) = replicate n True @ [False]"
  proof (rule Allow_calls_window)
    show "entries ?rl2 key = Some ?e1" by simp
    show "uses ?e1 + int n = maxUses ?e1" using assms(2) N by simp
    show "length ds = Suc n" using h N by simp
    show "clock ?rl2 + int (sum_list ds) \<le> expiresAt ?e1" using h by simp
  qed
  with a N show "fst (Allow_calls (d0 # ds) key rl) = replicate N True @ [False]"
    by (simp add: split_beta)
next
  assume h: "uses e = 0 \<and> length ds = Suc N \<and> clock rl + int (sum_list ds) \<le> expiresAt e"
  show "fst (Allow_calls ds key rl) = replicate N True @ [False]"
  proof (rule Allow_calls_window[OF assms(1)])
    show "uses e + int N = maxUses e" using h assms(2) by simp
    show "length ds = Suc N" using h by simp
    show "clock rl + int (sum_list ds) \<le> expiresAt e" using h by simp
  qed
qed

theorem quota_per_window_witness:
  "entries (Set ''k'' 2 100 (NewRateLimiter 0)) ''k'' =
     Some \<lparr>uses = 0, maxUses = 2, recovery = 100, expiresAt = 0\<rparr> \<and>
   fst (Allow_calls [1, 1, 1] ''k'' (Set ''k'' 2 100 (NewRateLimiter 0))) = [True, True, False] \<and>
   fst (Allow_calls [0, 0, 0] ''k'' (Set ''k'' 2 100 (NewRateLimiter 0))) = [True, True, False]"
proof -
  have h: "entries (Set ''k'' 2 100 (NewRateLimiter 0)) ''k'' =
     Some \<lparr>uses = 0, maxUses = 2, recovery = 100, expiresAt = 0\<rparr>"
    by (simp add: rl_eval)
  have c: "clock (Set ''k'' 2 100 (NewRateLimiter 0)) = 0" by (simp add: rl_eval)
  from quota_per_window[OF h, of 2 "[1, 1]" 1] quota_per_window[OF h, of 2 "[0, 0, 0]"] c h
  show ?thesis by (simp add: numeral_2_eq_2)
qed

text \<open>
  A call at the very instant of \<^verbatim>\<open>Set\<close> is not after \<open>expiresAt\<close>: it is counted in
  the entry's first window, which ends at that instant, and the next call opens a new one.
\<close>

lemma Set_instant_first_window:
  "fst (Allow_calls [0, 1, 1] ''k'' (Set ''k'' 2 100 (NewRateLimiter 0))) = [True, True, True]"
  by (simp add: rl_eval)

subsection \<open>The blocking wait returns\<close>

lemma Wait_loop_wakes:
  assumes "\<not> expiresAt e < now" and "\<not> uses e < maxUses e" and "i \<le> n" and "0 < lag n"
  shows "\<exists>now'. Wait_loop lag i e now =
                  Some (e\<lparr>uses := 1, expiresAt := now' + recovery e\<rparr>, now') \<and>
                expiresAt e < now'"
  using assms(1,3)
proof (induction "n - i" arbitrary: i now)
  case 0
  let ?t = "Sleep (expiresAt e - now) (lag i) now"
  from 0 have "i = n" by simp
  with assms(4) 0 have late: "expiresAt e < ?t" by (simp add: Sleep_def)
  have "Wait_loop lag i e now = Wait_loop lag (Suc i) e ?t"
    using 0 assms(2) by (simp add: Wait_loop_blocked)
  with late show ?case by (auto simp: Wait_loop_expired)
next
  case (Suc k)
  let ?t = "Sleep (expiresAt e - now) (lag i) now"
  have unfold: "Wait_loop lag i e now = Wait_loop lag (Suc i) e ?t"
    using Suc.prems assms(2) by (simp add: Wait_loop_blocked)
  show ?case
  proof (cases "0 < lag i")
    case True
    with Suc.prems have "expiresAt e < ?t" by (simp add: Sleep_def)
    with unfold show ?thesis by (auto simp: Wait_loop_expired)
  next
    case False
    with Suc.prems have t: "\<not> expiresAt e < ?t" by (simp add: Sleep_def)
    from Suc.hyps(2) have "k = n - Suc i" "Suc i \<le> n" by simp_all
    from Suc.hyps(1)[OF this(1) t this(2)] unfold show ?thesis by simp
  qed
qed

text \<open>
  The loop leaves only when the clock has passed \<open>expiresAt\<close>; a sleep ends no earlier
  than \<open>expiresAt\<close>, and the comparison is strict. On a clock that stands still whenever
  the caller does not sleep, the loop would turn for ever; this is why the theorem below
  asks for one instant \<open>n\<close> at which time moves on.
\<close>

lemma Wait_loop_frozen_clock:
  assumes "\<not> uses e < maxUses e" and "now \<le> expiresAt e"
  shows "Wait_loop (steady 0) i e now = None"
proof (rule ccontr)
  assume "Wait_loop (steady 0) i e now \<noteq> None"
  then obtain r where r: "Wait_loop (steady 0) i e now = Some r" by auto
  have "\<not> (lag = steady 0 \<and> \<not> uses e < maxUses e \<and> now \<le> expiresAt e)"
    if "Wait_loop lag i e now = Some r" for lag i e now r
  proof (rule Wait_loop.raw_induct[where P = "\<lambda>lag i e now r.
            \<not> (lag = steady 0 \<and> \<not> uses e < maxUses e \<and> now \<le> expiresAt e)", OF _ that])
    fix loop :: "(nat \<Rightarrow> nat) \<Rightarrow> nat \<Rightarrow> rateLimiterEntry \<Rightarrow> int \<Rightarrow> (rateLimiterEntry \<times> int) option"
    fix lag i e now r
    assume IH: "\<And>lag i e now r. loop lag i e now = Some r \<Longrightarrow>
            \<not> (lag = steady 0 \<and> \<not> uses e < maxUses e \<and> now \<le> expiresAt e)"
    assume eq: "(if expiresAt e < now then
        Some (e\<lparr>uses := 1, expiresAt := now + recovery e\<rparr>, now)
      else if uses e < maxUses e then
        Some (e\<lparr>uses := uses e + 1\<rparr>, now)
      else loop lag (Suc i) e (Sleep (expiresAt e - now) (lag i) now)) = Some r"
    show "\<not> (lag = steady 0 \<and> \<not> uses e < maxUses e \<and> now \<le> expiresAt e)"
    proof
      assume c: "lag = steady 0 \<and> \<not> uses e < maxUses e \<and> now \<le> expiresAt e"
      with eq have "loop lag (Suc i) e (Sleep (expiresAt e - now) (lag i) now) = Some r"
        by simp
      from IH[OF this] c show False by (simp add: Sleep_def steady_def)
    qed
  qed
  from this[OF r] assms show False by simp
qed

text \<open>
  Claim C5, as the code has it. On a configured key \<^verbatim>\<open>Wait\<close>, called by a lone
  caller, returns, whatever the \<open>recovery\<close>, provided that the clock moves on at some
  trip of the loop (\<open>0 < lag n\<close>: some sleep ends later than the instant asked for). When
  the window is over or there is room it consumes at once. When the quota is exhausted in
  a running window it returns no earlier than the remaining time \<open>expiresAt - now\<close>
  later, strictly after \<open>expiresAt\<close>, and has consumed the first use of a new window.
\<close>

theorem Wait_returns:
  assumes "entries rl key = Some e" and "0 < lag n"
  shows "\<exists>rl'. Wait lag key rl = Some rl' \<and>
           (if expiresAt e < clock rl then
              rl' = rl\<lparr>entries := (entries rl)(key \<mapsto>
                         e\<lparr>uses := 1, expiresAt := clock rl + recovery e\<rparr>)\<rparr>
            else if uses e < maxUses e then
              rl' = rl\<lparr>entries := (entries rl)(key \<mapsto> e\<lparr>uses := uses e + 1\<rparr>)\<rparr>
            else
              expiresAt e - clock rl \<le> clock rl' - clock rl \<and>
              expiresAt e < clock rl' \<and>
              entries rl' = (entries rl)(key \<mapsto>
                         e\<lparr>uses := 1, expiresAt := clock rl' + recovery e\<rparr>))"
proof (cases "expiresAt e < clock rl")
  case True
  with assms(1) show ?thesis by (simp add: Wait_def Wait_loop_expired)
next
  case False
  show ?thesis
  proof (cases "uses e < maxUses e")
    case True
    with False assms(1) show ?thesis by (simp add: Wait_def Wait_loop_room)
  next
    case full: False
    have "0 \<le> n" by simp
    from Wait_loop_wakes[of e "clock rl" 0 n lag, OF False full this assms(2)] obtain now' where
      w: "Wait_loop lag 0 e (clock rl) =
            Some (e\<lparr>uses := 1, expiresAt := now' + recovery e\<rparr>, now')"
      and late: "expiresAt e < now'" by auto
    from w assms(1) have "Wait lag key rl =
        Some (rl\<lparr>entries := (entries rl)(key \<mapsto>
                   e\<lparr>uses := 1, expiresAt := now' + recovery e\<rparr>), clock := now'\<rparr>)"
      by (simp add: Wait_def)
    with False full late show ?thesis by simp
  qed
qed

theorem Wait_returns_witness:
  "entries \<lparr>entries = [''k'' \<mapsto> \<lparr>uses = 2, maxUses = 2, recovery = 100, expiresAt = 101\<rparr>],
            clock = 3\<rparr> ''k'' =
     Some \<lparr>uses = 2, maxUses = 2, recovery = 100, expiresAt = 101\<rparr> \<and>
   0 < steady 1 0 \<and>
   Wait (steady 1) ''k''
     \<lparr>entries = [''k'' \<mapsto> \<lparr>uses = 2, maxUses = 2, recovery = 100, expiresAt = 101\<rparr>],
      clock = 3\<rparr> =
     Some \<lparr>entries = [''k'' \<mapsto> \<lparr>uses = 1, maxUses = 2, recovery = 100, expiresAt = 202\<rparr>],
           clock = 102\<rparr>"
proof -
  have l: "0 < steady 1 0" by (simp add: steady_def)
  have w: "Wait (steady 1) ''k''
     \<lparr>entries = [''k'' \<mapsto> \<lparr>uses = 2, maxUses = 2, recovery = 100, expiresAt = 101\<rparr>],
      clock = 3\<rparr> =
     Some \<lparr>entries = [''k'' \<mapsto> \<lparr>uses = 1, maxUses = 2, recovery = 100, expiresAt = 202\<rparr>],
           clock = 102\<rparr>"
    by (simp add: Wait_def Wait_loop_blocked Wait_loop_expired Sleep_def steady_def)
  from Wait_returns[of
    "\<lparr>entries = [''k'' \<mapsto> \<lparr>uses = 2, maxUses = 2, recovery = 100, expiresAt = 101\<rparr>],
      clock = 3\<rparr>" "''k''" "\<lparr>uses = 2, maxUses = 2, recovery = 100, expiresAt = 101\<rparr>"
    "steady 1" 0] l w
  show ?thesis by simp
qed

text \<open>
  The claim's own wording has \<^verbatim>\<open>Wait\<close> return on every configured key with a positive
  \<open>recovery\<close>. With the quota of one used up in a window that ends at 101, and every
  sleep ending exactly at the instant asked for, the clock reads 101 after the first sleep;
  101 is not after 101, the next sleep lasts no time, and the loop never returns.
\<close>

theorem Wait_exact_clock_counterexample:
  "run (steady 0) [OpSet ''k'' 1 100, OpElapse 1, OpAllow ''k''] (NewRateLimiter 0) =
     Some \<lparr>entries = [''k'' \<mapsto> \<lparr>uses = 1, maxUses = 1, recovery = 100, expiresAt = 101\<rparr>],
           clock = 1\<rparr> \<and>
   (0::int) < recovery \<lparr>uses = 1, maxUses = 1, recovery = 100, expiresAt = 101\<rparr> \<and>
   Wait (steady 0) ''k''
     \<lparr>entries = [''k'' \<mapsto> \<lparr>uses = 1, maxUses = 1, recovery = 100, expiresAt = 101\<rparr>],
      clock = 1\<rparr> = None \<and>
   run (steady 0) [OpSet ''k'' 1 100, OpElapse 1, OpAllow ''k'', OpWait ''k'']
       (NewRateLimiter 0) = None"
proof -
  have l: "Wait_loop (steady 0) 0
             \<lparr>uses = 1, maxUses = 1, recovery = 100, expiresAt = 101\<rparr> 1 = None"
    by (rule Wait_loop_frozen_clock) simp_all
  have w: "Wait (steady 0) ''k''
     \<lparr>entries = [''k'' \<mapsto> \<lparr>uses = 1, maxUses = 1, recovery = 100, expiresAt = 101\<rparr>],
      clock = 1\<rparr> = None"
    using l by (simp add: Wait_def)
  have r: "run (steady 0) [OpSet ''k'' 1 100, OpElapse 1, OpAllow ''k''] (NewRateLimiter 0) =
     Some \<lparr>entries = [''k'' \<mapsto> \<lparr>uses = 1, maxUses = 1, recovery = 100, expiresAt = 101\<rparr>],
           clock = 1\<rparr>"
    by (simp add: rl_eval)
  have r': "run (steady 0) [OpSet ''k'' 1 100, OpElapse 1, OpAllow ''k'', OpWait ''k'']
       (NewRateLimiter 0) = None"
    using w by (simp add: NewRateLimiter_def Set_def elapse_def Allow_def Let_def)
  from r w r' show ?thesis by simp
qed

subsection \<open>First touch by WaitOrSet\<close>

text \<open>
  Claim C6. \<^verbatim>\<open>WaitOrSet\<close> on an absent key returns without waiting (it does return,
  and the clock has not moved) and creates the entry with one use consumed and the window
  starting now: \<open>uses = 1\<close>, \<open>expiresAt = now + recovery\<close>. No other key changes.
\<close>
theorem WaitOrSet_fresh:
  assumes "entries rl key = None"
  shows "\<exists>rl'. WaitOrSet lag key max_uses recov rl = Some rl' \<and>
           entries rl' key =
             Some \<lparr>uses = 1, maxUses = max_uses, recovery = recov,
                   expiresAt = clock rl + recov\<rparr> \<and>
           clock rl' = clock rl \<and>
           (\<forall>k. k \<noteq> key \<longrightarrow> entries rl' k = entries rl k)"
  using assms by (simp add: WaitOrSet_def)

theorem WaitOrSet_fresh_witness:
  "entries (NewRateLimiter 7) ''k'' = None \<and>
   (\<exists>rl'. WaitOrSet (steady 1) ''k'' 3 100 (NewRateLimiter 7) = Some rl' \<and>
      entries rl' ''k'' = Some \<lparr>uses = 1, maxUses = 3, recovery = 100, expiresAt = 107\<rparr> \<and>
      clock rl' = 7)"
proof -
  have h: "entries (NewRateLimiter 7) ''k'' = None" by (simp add: NewRateLimiter_def)
  from WaitOrSet_fresh[OF h, of "steady 1" 3 100] h
  show ?thesis by (auto simp: NewRateLimiter_def)
qed

subsection \<open>WaitOrSet on a key that exists\<close>

text \<open>
  Claim C7. On a key that is present \<^verbatim>\<open>WaitOrSet\<close> is \<^verbatim>\<open>Wait\<close>: the same result
  for the same state, whatever \<open>maxUses\<close> and \<open>recovery\<close> are passed, and the entry
  keeps the \<open>maxUses\<close> and \<open>recovery\<close> it had.
\<close>
theorem WaitOrSet_existing:
  assumes "entries rl key = Some e"
  shows "WaitOrSet lag key max_uses recov rl = Wait lag key rl \<and>
         (\<forall>rl'. WaitOrSet lag key max_uses recov rl = Some rl' \<longrightarrow>
            (\<exists>e'. entries rl' key = Some e' \<and>
                   maxUses e' = maxUses e \<and> recovery e' = recovery e))"
proof -
  have eq: "WaitOrSet lag key max_uses recov rl = Wait lag key rl"
    using assms by (simp add: WaitOrSet_def)
  have "\<exists>e'. entries rl' key = Some e' \<and> maxUses e' = maxUses e \<and> recovery e' = recovery e"
    if "Wait lag key rl = Some rl'" for rl'
    using Wait_result[OF assms that] by (auto simp: granted_def)
  with eq show ?thesis by simp
qed

theorem WaitOrSet_existing_witness:
  "entries (Set ''k'' 2 100 (NewRateLimiter 0)) ''k'' =
     Some \<lparr>uses = 0, maxUses = 2, recovery = 100, expiresAt = 0\<rparr> \<and>
   WaitOrSet (steady 1) ''k'' 9 5 (Set ''k'' 2 100 (NewRateLimiter 0)) =
     Wait (steady 1) ''k'' (Set ''k'' 2 100 (NewRateLimiter 0)) \<and>
   WaitOrSet (steady 1) ''k'' 9 5 (Set ''k'' 2 100 (NewRateLimiter 0)) =
     Some \<lparr>entries = [''k'' \<mapsto> \<lparr>uses = 1, maxUses = 2, recovery = 100, expiresAt = 0\<rparr>],
           clock = 0\<rparr>"
proof -
  have h: "entries (Set ''k'' 2 100 (NewRateLimiter 0)) ''k'' =
     Some \<lparr>uses = 0, maxUses = 2, recovery = 100, expiresAt = 0\<rparr>"
    by (simp add: Set_def NewRateLimiter_def)
  have w: "Wait (steady 1) ''k'' (Set ''k'' 2 100 (NewRateLimiter 0)) =
     Some \<lparr>entries = [''k'' \<mapsto> \<lparr>uses = 1, maxUses = 2, recovery = 100, expiresAt = 0\<rparr>],
           clock = 0\<rparr>"
    by (simp add: Wait_def Set_def NewRateLimiter_def Wait_loop_room)
  from WaitOrSet_existing[OF h, of "steady 1" 9 5] h w show ?thesis by simp
qed

subsection \<open>Configuration\<close>

text \<open>
  Claim C8. \<^verbatim>\<open>Set\<close> on an absent key creates the entry with \<open>uses = 0\<close> and
  \<open>expiresAt = now\<close>; on a key that exists it replaces \<open>maxUses\<close> and \<open>recovery\<close>
  and keeps \<open>uses\<close> and \<open>expiresAt\<close>. No other key changes, and no time passes.
\<close>
theorem Set_frame:
  "(entries rl key = None \<longrightarrow>
      entries (Set key max_uses recov rl) key =
        Some \<lparr>uses = 0, maxUses = max_uses, recovery = recov, expiresAt = clock rl\<rparr>) \<and>
   (\<forall>e. entries rl key = Some e \<longrightarrow>
      entries (Set key max_uses recov rl) key =
        Some \<lparr>uses = uses e, maxUses = max_uses, recovery = recov, expiresAt = expiresAt e\<rparr>) \<and>
   (\<forall>k. k \<noteq> key \<longrightarrow> entries (Set key max_uses recov rl) k = entries rl k) \<and>
   clock (Set key max_uses recov rl) = clock rl"
  by (cases "entries rl key") (simp_all add: Set_def)

theorem Set_frame_witness:
  "entries (NewRateLimiter 7) ''k'' = None \<and>
   entries (Set ''k'' 3 100 (NewRateLimiter 7)) ''k'' =
     Some \<lparr>uses = 0, maxUses = 3, recovery = 100, expiresAt = 7\<rparr> \<and>
   entries (snd (Allow ''k'' (Set ''k'' 3 100 (NewRateLimiter 7)))) ''k'' =
     Some \<lparr>uses = 1, maxUses = 3, recovery = 100, expiresAt = 7\<rparr> \<and>
   entries (Set ''k'' 5 20 (snd (Allow ''k'' (Set ''k'' 3 100 (NewRateLimiter 7))))) ''k'' =
     Some \<lparr>uses = 1, maxUses = 5, recovery = 20, expiresAt = 7\<rparr> \<and>
   ''j'' \<noteq> ''k'' \<and>
   entries (Set ''k'' 3 100 (NewRateLimiter 7)) ''j'' = entries (NewRateLimiter 7) ''j''"
proof -
  have h: "entries (NewRateLimiter 7) ''k'' = None" by (simp add: NewRateLimiter_def)
  have g: "entries (snd (Allow ''k'' (Set ''k'' 3 100 (NewRateLimiter 7)))) ''k'' =
     Some \<lparr>uses = 1, maxUses = 3, recovery = 100, expiresAt = 7\<rparr>"
    by (simp add: NewRateLimiter_def Set_def Allow_def)
  from Set_frame[of "NewRateLimiter 7" "''k''" 3 100]
       Set_frame[of "snd (Allow ''k'' (Set ''k'' 3 100 (NewRateLimiter 7)))" "''k''" 5 20] h g
  show ?thesis by (simp add: NewRateLimiter_def)
qed

subsection \<open>Keys that were never configured\<close>

text \<open>
  Claim C9. On a key that is absent from the table, \<^verbatim>\<open>Allow\<close> returns true and
  \<^verbatim>\<open>Wait\<close> returns at once (the state it returns is the state it was given, clock
  included), however many calls are made and in whatever order, and whatever time passes
  between them; the table is left as it was.
\<close>
theorem unconfigured_unlimited:
  assumes "entries rl key = None"
  shows "Allow key rl = (True, rl) \<and> Wait lag key rl = Some rl \<and>
         (set ops \<subseteq> {OpAllow key, OpWait key} \<longrightarrow> run lag ops rl = Some rl) \<and>
         fst (Allow_calls ds key rl) = replicate (length ds) True \<and>
         entries (snd (Allow_calls ds key rl)) = entries rl"
proof -
  have a: "Allow key rl = (True, rl)" using assms by (simp add: Allow_def)
  have w: "Wait lag key rl = Some rl" using assms by (simp add: Wait_def)
  have r: "set ops \<subseteq> {OpAllow key, OpWait key} \<longrightarrow> run lag ops rl = Some rl"
    using a w by (induction ops) auto
  have c: "entries rl' key = None \<Longrightarrow>
        fst (Allow_calls ds key rl') = replicate (length ds) True \<and>
        entries (snd (Allow_calls ds key rl')) = entries rl'" for rl'
  proof (induction ds arbitrary: rl')
    case Nil
    then show ?case by simp
  next
    case (Cons d ds)
    have e: "entries (elapse d rl') key = None" using Cons.prems by (simp add: elapse_def)
    have "Allow key (elapse d rl') = (True, elapse d rl')" using e by (simp add: Allow_def)
    with Cons.IH[OF e] show ?case by (simp add: split_beta elapse_def)
  qed
  show ?thesis using a w r c[OF assms] by simp
qed

theorem unconfigured_unlimited_witness:
  "entries (NewRateLimiter 0) ''k'' = None \<and>
   Allow ''k'' (NewRateLimiter 0) = (True, NewRateLimiter 0) \<and>
   Wait (steady 0) ''k'' (NewRateLimiter 0) = Some (NewRateLimiter 0) \<and>
   run (steady 0) [OpAllow ''k'', OpWait ''k'', OpAllow ''k''] (NewRateLimiter 0)
     = Some (NewRateLimiter 0) \<and>
   fst (Allow_calls [0, 5, 7] ''k'' (NewRateLimiter 0)) = [True, True, True]"
proof -
  have h: "entries (NewRateLimiter 0) ''k'' = None" by (simp add: NewRateLimiter_def)
  have s: "set [OpAllow ''k'', OpWait ''k'', OpAllow ''k''] \<subseteq> {OpAllow ''k'', OpWait ''k''}"
    by simp
  from unconfigured_unlimited[OF h, of "steady 0" "[OpAllow ''k'', OpWait ''k'', OpAllow ''k'']" "[0,5,7]"] h s
  show ?thesis by (simp add: numeral_3_eq_3)
qed

subsection \<open>An expired window grants without looking at the quota\<close>

text \<open>
  Claim C10. When \<open>expiresAt\<close> lies strictly in the past, \<^verbatim>\<open>Allow\<close> returns true and
  \<^verbatim>\<open>Wait\<close> returns in its first trip through the loop, without sleeping; both leave
  \<open>uses = 1\<close> and \<open>expiresAt = now + recovery\<close>, whatever \<open>uses\<close> and \<open>maxUses\<close>
  were.
\<close>
theorem expired_window_grants:
  assumes "entries rl key = Some e" and "expiresAt e < clock rl"
  shows "Allow key rl =
           (True, rl\<lparr>entries := (entries rl)(key \<mapsto>
                      e\<lparr>uses := 1, expiresAt := clock rl + recovery e\<rparr>)\<rparr>) \<and>
         Wait lag key rl =
           Some (rl\<lparr>entries := (entries rl)(key \<mapsto>
                      e\<lparr>uses := 1, expiresAt := clock rl + recovery e\<rparr>)\<rparr>)"
  using assms by (simp add: Allow_def Wait_def Wait_loop_expired)

theorem expired_window_grants_witness:
  "entries \<lparr>entries = [''k'' \<mapsto> \<lparr>uses = 5, maxUses = 0, recovery = 100, expiresAt = 10\<rparr>],
            clock = 11\<rparr> ''k'' =
     Some \<lparr>uses = 5, maxUses = 0, recovery = 100, expiresAt = 10\<rparr> \<and>
   (10::int) < 11 \<and>
   Allow ''k'' \<lparr>entries = [''k'' \<mapsto> \<lparr>uses = 5, maxUses = 0, recovery = 100, expiresAt = 10\<rparr>],
                 clock = 11\<rparr> =
     (True, \<lparr>entries = [''k'' \<mapsto> \<lparr>uses = 1, maxUses = 0, recovery = 100, expiresAt = 111\<rparr>],
             clock = 11\<rparr>) \<and>
   Wait (steady 0) ''k''
        \<lparr>entries = [''k'' \<mapsto> \<lparr>uses = 5, maxUses = 0, recovery = 100, expiresAt = 10\<rparr>],
         clock = 11\<rparr> =
     Some \<lparr>entries = [''k'' \<mapsto> \<lparr>uses = 1, maxUses = 0, recovery = 100, expiresAt = 111\<rparr>],
           clock = 11\<rparr>"
  using expired_window_grants[of
    "\<lparr>entries = [''k'' \<mapsto> \<lparr>uses = 5, maxUses = 0, recovery = 100, expiresAt = 10\<rparr>],
      clock = 11\<rparr>" "''k''" "\<lparr>uses = 5, maxUses = 0, recovery = 100, expiresAt = 10\<rparr>"
    "steady 0"]
  by simp

end
